theory Spec2Isabelle
  imports Main
begin

section \<open>Python values and the string methods the sources call\<close>

text \<open>
  A Python \<open>str\<close> is modelled as a \<open>string\<close> whose characters stand for the code points
  below 256, one \<open>char\<close> per code point, so that \<open>length\<close> is Python's \<open>len\<close>.
  Values of other Python types are only needed where the source tests
  \<open>isinstance(suid, str)\<close>.
\<close>

datatype pyobj =
    PyStr string
  | PyNone
  | PyBool bool
  | PyInt int
  | PyBytes string
  | PyList "pyobj list"

datatype py_exception = ValueError | TypeError

text \<open>\<open>s.startswith(p)\<close>.\<close>

definition startswith :: "string \<Rightarrow> string \<Rightarrow> bool" where
  "startswith s p = (take (length p) s = p)"

text \<open>
  \<open>s.replace(old, "")\<close>: the occurrences of \<open>old\<close> are found from the left and do
  not overlap; what a deletion brings together is not searched again. With an empty
  \<open>old\<close> the string is returned as it is.
\<close>

function replace_del :: "string \<Rightarrow> string \<Rightarrow> string" where
  "replace_del old [] = []"
| "replace_del old (c # cs) =
     (if old \<noteq> [] \<and> startswith (c # cs) old
      then replace_del old (drop (length old) (c # cs))
      else c # replace_del old cs)"
  by pat_completeness auto
termination
  by (relation "measure (\<lambda>(old, s). length s)") auto

text \<open>\<open>s.strip(chars)\<close>, the set of characters given as a predicate.\<close>

definition strip_chars :: "(char \<Rightarrow> bool) \<Rightarrow> string \<Rightarrow> string" where
  "strip_chars P s = rev (dropWhile P (rev (dropWhile P s)))"

text \<open>
  \<open>str.isspace\<close> on one character: the white space of \<open>s.strip()\<close>. Below 256 these
  are the code points 9 to 13, 28 to 32, 133 and 160.
\<close>

definition py_isspace :: "char \<Rightarrow> bool" where
  "py_isspace c =
     (let n = (of_char c :: int)
      in (9 \<le> n \<and> n \<le> 13) \<or> (28 \<le> n \<and> n \<le> 32) \<or> n = 133 \<or> n = 160)"

text \<open>\<open>s.strip()\<close>.\<close>

definition strip :: "string \<Rightarrow> string" where
  "strip s = strip_chars py_isspace s"

text \<open>\<open>sep.join(xs)\<close>.\<close>

fun join :: "string \<Rightarrow> string list \<Rightarrow> string" where
  "join sep [] = []"
| "join sep [x] = x"
| "join sep (x # y # ys) = x @ sep @ join sep (y # ys)"

section \<open>The built-in \<open>int(s, 16)\<close>\<close>

text \<open>
  CPython first rewrites a string that is not pure ASCII: a character below 127 is
  kept, a white-space character becomes a blank, a decimal digit becomes its ASCII
  digit (there is none from 127 to 255), and at any other character the string is
  cut and ends in a question mark.
\<close>

fun transform_non_ascii :: "string \<Rightarrow> string" where
  "transform_non_ascii [] = []"
| "transform_non_ascii (c # cs) =
     (if (of_char c :: int) < 127 then c # transform_non_ascii cs
      else if py_isspace c then CHR '' '' # transform_non_ascii cs
      else ''?'')"

definition transform_decimal_and_space_to_ascii :: "string \<Rightarrow> string" where
  "transform_decimal_and_space_to_ascii s =
     (if list_all (\<lambda>c. (of_char c :: int) < 128) s then s else transform_non_ascii s)"

text \<open>The C macro \<open>Py_ISSPACE\<close>: blank, tab, line feed, vertical tab, form feed, return.\<close>

definition c_isspace :: "char \<Rightarrow> bool" where
  "c_isspace c = (let n = (of_char c :: int) in (9 \<le> n \<and> n \<le> 13) \<or> n = 32)"

text \<open>The table \<open>_PyLong_DigitValue\<close>: 0 to 35 for digits and letters, 37 otherwise.\<close>

definition digit_value :: "char \<Rightarrow> int" where
  "digit_value c =
     (let n = (of_char c :: int)
      in if 48 \<le> n \<and> n \<le> 57 then n - 48
         else if 97 \<le> n \<and> n \<le> 122 then n - 87
         else if 65 \<le> n \<and> n \<le> 90 then n - 55
         else 37)"

text \<open>
  The scanning loop of \<open>long_from_string_base\<close> for base 16: digits and single
  underscores between them. \<open>prev\<close> is the character read last, \<open>acc\<close> the value so
  far; the result is the value and what is left of the string, or \<open>None\<close> on a
  doubled or trailing underscore.
\<close>

fun scan_digits :: "char \<Rightarrow> int \<Rightarrow> string \<Rightarrow> (int \<times> string) option" where
  "scan_digits prev acc [] = (if prev = CHR ''_'' then None else Some (acc, []))"
| "scan_digits prev acc (c # cs) =
     (if c = CHR ''_'' then (if prev = CHR ''_'' then None else scan_digits c acc cs)
      else if digit_value c < 16 then scan_digits c (16 * acc + digit_value c) cs
      else if prev = CHR ''_'' then None
      else Some (acc, c # cs))"

text \<open>A leading underscore and an empty run of digits are syntax errors.\<close>

definition long_from_string_base :: "string \<Rightarrow> (int \<times> string) option" where
  "long_from_string_base str =
     (case str of
        [] \<Rightarrow> None
      | c # cs \<Rightarrow>
          if c = CHR ''_'' then None
          else (case scan_digits (CHR 0x00) 0 str of
                  None \<Rightarrow> None
                | Some (v, rest) \<Rightarrow> if length rest = length str then None else Some (v, rest)))"

text \<open>The optional sign.\<close>

definition skip_sign :: "string \<Rightarrow> int \<times> string" where
  "skip_sign str =
     (case str of
        [] \<Rightarrow> (1, [])
      | c # cs \<Rightarrow>
          if c = CHR ''+'' then (1, cs)
          else if c = CHR ''-'' then (- 1, cs)
          else (1, c # cs))"

text \<open>The optional \<open>0x\<close> or \<open>0X\<close>, after which one underscore is allowed.\<close>

definition skip_base_prefix :: "string \<Rightarrow> string" where
  "skip_base_prefix str =
     (case str of
        a # b # cs \<Rightarrow>
          if a = CHR ''0'' \<and> (b = CHR ''x'' \<or> b = CHR ''X'')
          then (case cs of
                  [] \<Rightarrow> []
                | u # us \<Rightarrow> if u = CHR ''_'' then us else u # us)
          else a # b # cs
      | _ \<Rightarrow> str)"

text \<open>
  \<open>PyLong_FromString(str, &end, 16)\<close> together with the caller's test that the
  whole string was read: white space, sign, prefix, digits, white space, end.
\<close>

definition PyLong_FromString :: "string \<Rightarrow> int option" where
  "PyLong_FromString str =
     (case skip_sign (dropWhile c_isspace str) of
        (sign, str1) \<Rightarrow>
          (case long_from_string_base (skip_base_prefix str1) of
             None \<Rightarrow> None
           | Some (v, rest) \<Rightarrow>
               if dropWhile c_isspace rest = [] then Some (sign * v) else None))"

text \<open>\<open>int(s, 16)\<close>: the value, or \<open>ValueError\<close>.\<close>

definition py_int16 :: "string \<Rightarrow> py_exception + int" where
  "py_int16 s =
     (case PyLong_FromString (transform_decimal_and_space_to_ascii s) of
        None \<Rightarrow> Inl ValueError
      | Some v \<Rightarrow> Inr v)"

section \<open>The standard module uuid\<close>

text \<open>
  \<open>uuid.UUID(hex)\<close>, the constructor called with a string: the integer of the UUID,
  or the exception raised.
\<close>

definition UUID_hex :: "string \<Rightarrow> py_exception + int" where
  "UUID_hex hex =
     (let hex1 = replace_del ''uuid:'' (replace_del ''urn:'' hex);
          hex2 = replace_del ''-'' (strip_chars (\<lambda>c. c = CHR ''{'' \<or> c = CHR ''}'') hex1)
      in if length hex2 \<noteq> 32 then Inl ValueError
         else (case py_int16 hex2 of
                 Inl e \<Rightarrow> Inl e
               | Inr i \<Rightarrow> if \<not> (0 \<le> i \<and> i < 2 ^ 128) then Inl ValueError else Inr i))"

text \<open>\<open>int.from_bytes(bytes)\<close>, big endian; a \<open>bytes\<close> value is a list of 8-bit characters.\<close>

definition int_from_bytes :: "string \<Rightarrow> int" where
  "int_from_bytes bytes = foldl (\<lambda>acc b. 256 * acc + of_char b) 0 bytes"

text \<open>
  \<open>uuid.UUID(bytes=bytes, version=version)\<close>: the length and range checks, then the
  variant and version bits are set.
\<close>

definition UUID_bytes :: "string \<Rightarrow> int \<Rightarrow> py_exception + int" where
  "UUID_bytes bytes version =
     (if length bytes \<noteq> 16 then Inl ValueError
      else let i = int_from_bytes bytes
           in if \<not> (0 \<le> i \<and> i < 2 ^ 128) then Inl ValueError
              else if \<not> (1 \<le> version \<and> version \<le> 5) then Inl ValueError
              else let i1 = and i (not (push_bit 48 0xc000));
                       i2 = or i1 (push_bit 48 0x8000);
                       i3 = and i2 (not (push_bit 64 0xf000));
                       i4 = or i3 (push_bit 76 version)
                   in Inr i4)"

text \<open>The lowercase hexadecimal digits of a non-negative integer, as \<open>%x\<close> prints them.\<close>

definition hex_char :: "int \<Rightarrow> char" where
  "hex_char d = ''0123456789abcdef'' ! nat d"

function to_hex :: "int \<Rightarrow> string" where
  "to_hex n = (if n < 16 then [hex_char n] else to_hex (n div 16) @ [hex_char (n mod 16)])"
  by pat_completeness auto
termination
  by (relation "measure nat") auto

declare to_hex.simps [simp del]

text \<open>The digits of \<open>n\<close> padded with zeros on the left to \<open>k\<close> characters.\<close>

definition zero_pad :: "nat \<Rightarrow> int \<Rightarrow> string" where
  "zero_pad k n = replicate (k - length (to_hex n)) (CHR ''0'') @ to_hex n"

text \<open>\<open>'%032x' % n\<close>: padded with zeros to 32 characters, the sign included.\<close>

definition format_032x :: "int \<Rightarrow> string" where
  "format_032x n =
     (if n < 0
      then CHR ''-'' # replicate (31 - length (to_hex (- n))) (CHR ''0'') @ to_hex (- n)
      else replicate (32 - length (to_hex n)) (CHR ''0'') @ to_hex n)"

text \<open>\<open>UUID.__str__\<close>: the slices \<open>hex[:8]\<close>, \<open>hex[8:12]\<close>, \<open>hex[12:16]\<close>, \<open>hex[16:20]\<close>, \<open>hex[20:]\<close>.\<close>

definition UUID_str :: "int \<Rightarrow> string" where
  "UUID_str i =
     (let hex = format_032x i
      in take 8 hex @ ''-'' @ take 4 (drop 8 hex) @ ''-'' @ take 4 (drop 12 hex) @ ''-'' @
         take 4 (drop 16 hex) @ ''-'' @ drop 20 hex)"

section \<open>utils/suid.py\<close>

text \<open>
  \<open>get_suid\<close>: \<open>str(uuid.uuid4())\<close>, where \<open>uuid4()\<close> is
  \<open>UUID(bytes=os.urandom(16), version=4)\<close>. The bytes drawn from the random source
  are the argument.
\<close>

definition get_suid :: "string \<Rightarrow> py_exception + string" where
  "get_suid urandom =
     (case UUID_bytes urandom 4 of
        Inl e \<Rightarrow> Inl e
      | Inr i \<Rightarrow> Inr (UUID_str i))"

text \<open>
  \<open>check_suid\<close>. The first \<open>try\<close> catches \<open>ValueError\<close> only, the second
  \<open>ValueError\<close> and \<open>TypeError\<close>; any other exception would leave the function.
\<close>

definition check_suid :: "pyobj \<Rightarrow> py_exception + bool" where
  "check_suid suid =
     (case suid of
        PyStr s \<Rightarrow>
          (let hex_part = (if startswith s ''conv_'' then drop 5 s else s)
           in if length hex_part = 48
              then (case py_int16 hex_part of
                      Inr i \<Rightarrow> Inr True
                    | Inl ValueError \<Rightarrow> Inr False
                    | Inl e \<Rightarrow> Inl e)
              else (case UUID_hex s of
                      Inr u \<Rightarrow> Inr True
                    | Inl ValueError \<Rightarrow> Inr False
                    | Inl TypeError \<Rightarrow> Inr False))
      | _ \<Rightarrow> Inr False)"

text \<open>
  \<open>conversation_id[5:] if conversation_id.startswith("conv_") else conversation_id\<close>.
  A Python slice never raises; \<open>drop\<close> agrees with it on every string.
\<close>

definition normalize_conversation_id :: "string \<Rightarrow> string" where
  "normalize_conversation_id conversation_id =
     (if startswith conversation_id ''conv_'' then drop 5 conversation_id
      else conversation_id)"

text \<open>
  \<open>f"conv_{conversation_id}" if not conversation_id.startswith("conv_") else conversation_id\<close>.
\<close>

definition to_llama_stack_conversation_id :: "string \<Rightarrow> string" where
  "to_llama_stack_conversation_id conversation_id =
     (if \<not> startswith conversation_id ''conv_'' then ''conv_'' @ conversation_id
      else conversation_id)"

section \<open>models/rlsapi/requests.py\<close>

text \<open>
  The models are pydantic models. An inbound payload is modelled with its types: each
  key is absent or carries a value of the type its field declares, so a payload
  with a value of another type is outside the model. Validation collects the errors
  of all fields; a \<open>ValidationError\<close> is the list of them, each with the location of
  the field and the kind of error.

  The base class \<open>ConfigurationBase\<close> is imported from \<open>models.config\<close>, which is not
  among the sources. The two settings of its \<open>model_config\<close> that decide how keys are
  matched to fields are parameters here: what is done with a key that matches no
  field, and whether a field with an alias may also be given under its own name.
  pydantic's defaults are \<open>Ignore\<close> and \<open>False\<close>. Every other setting is taken at its
  default.
\<close>

datatype extra_behavior = Ignore | Allow | Forbid




record RlsapiV1Attachment =
  contents :: string
  mimetype :: string

record RlsapiV1Terminal =
  output' :: string

record RlsapiV1SystemInfo =
  os :: string
  version :: string
  arch :: string
  system_id :: string

record RlsapiV1CLA =
  nevra :: string
  cla_version :: string

record RlsapiV1Context =
  stdin :: string
  attachments :: RlsapiV1Attachment
  terminal :: RlsapiV1Terminal
  systeminfo :: RlsapiV1SystemInfo
  cla :: RlsapiV1CLA

record RlsapiV1InferRequest =
  question :: string
  request_context :: RlsapiV1Context
  skip_rag :: bool

text \<open>The payloads: one optional entry for each key that may come in.\<close>

record attachment_payload =
  contents_key :: "string option"
  mimetype_key :: "string option"

record terminal_payload =
  output_key :: "string option"


record cla_payload =
  nevra_key :: "string option"
  cla_version_key :: "string option"



text \<open>A field \<open>name: str = ""\<close>: the value given, as it is, or the default.\<close>

definition str_field :: "string option \<Rightarrow> string" where
  "str_field v = (case v of None \<Rightarrow> [] | Some s \<Rightarrow> s)"


definition validate_attachment :: "attachment_payload \<Rightarrow> RlsapiV1Attachment" where
  "validate_attachment p =
     \<lparr>contents = str_field (contents_key p), mimetype = str_field (mimetype_key p)\<rparr>"

definition validate_terminal :: "terminal_payload \<Rightarrow> RlsapiV1Terminal" where
  "validate_terminal p = \<lparr>output' = str_field (output_key p)\<rparr>"

definition validate_cla :: "cla_payload \<Rightarrow> RlsapiV1CLA" where
  "validate_cla p =
     \<lparr>nevra = str_field (nevra_key p), cla_version = str_field (cla_version_key p)\<rparr>"



text \<open>The values of \<open>default_factory\<close>: the models built from no argument.\<close>

definition default_attachment :: RlsapiV1Attachment where
  "default_attachment = validate_attachment \<lparr>contents_key = None, mimetype_key = None\<rparr>"

definition default_terminal :: RlsapiV1Terminal where
  "default_terminal = validate_terminal \<lparr>output_key = None\<rparr>"

definition default_systeminfo :: RlsapiV1SystemInfo where
  "default_systeminfo = \<lparr>os = [], version = [], arch = [], system_id = []\<rparr>"

definition default_cla :: RlsapiV1CLA where
  "default_cla = validate_cla \<lparr>nevra_key = None, cla_version_key = None\<rparr>"

definition default_context :: RlsapiV1Context where
  "default_context =
     \<lparr>stdin = [], attachments = default_attachment, terminal = default_terminal,
      systeminfo = default_systeminfo, cla = default_cla\<rparr>"








text \<open>\<open>get_input_source\<close>.\<close>

definition get_input_source :: "RlsapiV1InferRequest \<Rightarrow> string" where
  "get_input_source self =
     (let sources = [question self];
          sources = (if stdin (request_context self) \<noteq> []
                     then sources @ [stdin (request_context self)] else sources);
          sources = (if contents (attachments (request_context self)) \<noteq> []
                     then sources @ [contents (attachments (request_context self))]
                     else sources);
          sources = (if output' (terminal (request_context self)) \<noteq> []
                     then sources @ [output' (terminal (request_context self))] else sources)
      in join [CHR 0x0A, CHR 0x0A] sources)"

section \<open>The identifier formats\<close>

text \<open>A hexadecimal digit: \<open>0\<close> to \<open>9\<close>, \<open>a\<close> to \<open>f\<close>, \<open>A\<close> to \<open>F\<close>.\<close>

definition hexdigit :: "char \<Rightarrow> bool" where
  "hexdigit c =
     (let n = (of_char c :: int)
      in (48 \<le> n \<and> n \<le> 57) \<or> (97 \<le> n \<and> n \<le> 102) \<or> (65 \<le> n \<and> n \<le> 70))"

definition lower_hexdigit :: "char \<Rightarrow> bool" where
  "lower_hexdigit c =
     (let n = (of_char c :: int) in (48 \<le> n \<and> n \<le> 57) \<or> (97 \<le> n \<and> n \<le> 102))"

text \<open>
  The canonical text of a UUID: 36 characters, hyphens at the positions 8, 13, 18 and
  23, digits accepted by \<open>dg\<close> in the groups of 8, 4, 4, 4 and 12 between them.
\<close>

definition uuid_groups :: "string \<Rightarrow> string" where
  "uuid_groups s =
     take 8 s @ take 4 (drop 9 s) @ take 4 (drop 14 s) @ take 4 (drop 19 s) @ drop 24 s"

definition canonical_uuid_with :: "(char \<Rightarrow> bool) \<Rightarrow> string \<Rightarrow> bool" where
  "canonical_uuid_with dg s =
     (length s = 36 \<and> s ! 8 = CHR ''-'' \<and> s ! 13 = CHR ''-'' \<and> s ! 18 = CHR ''-'' \<and>
      s ! 23 = CHR ''-'' \<and> list_all dg (uuid_groups s))"

definition canonical_uuid :: "string \<Rightarrow> bool" where
  "canonical_uuid s = canonical_uuid_with hexdigit s"

definition canonical_lower_uuid :: "string \<Rightarrow> bool" where
  "canonical_lower_uuid s = canonical_uuid_with lower_hexdigit s"

section \<open>Lemmas about \<open>int(s, 16)\<close>\<close>

lemma hexdigit_digit_value: "hexdigit c \<longleftrightarrow> digit_value c < 16"
  by (auto simp: hexdigit_def digit_value_def Let_def)

lemma lower_hexdigit_hexdigit: "lower_hexdigit c \<Longrightarrow> hexdigit c"
  by (auto simp: hexdigit_def lower_hexdigit_def Let_def)

lemma digit_value_nonneg: "0 \<le> digit_value c"
  by (auto simp: digit_value_def Let_def)

lemma hexdigit_ascii: "hexdigit c \<Longrightarrow> (of_char c :: int) < 127"
  by (auto simp: hexdigit_def Let_def)

lemma hexdigit_not_space: "hexdigit c \<Longrightarrow> \<not> c_isspace c"
  by (auto simp: hexdigit_def c_isspace_def Let_def)

lemma hexdigit_neq:
  assumes "hexdigit c"
  shows "c \<noteq> CHR ''_''" "c \<noteq> CHR ''+''" "c \<noteq> CHR ''-''" "c \<noteq> CHR ''x''" "c \<noteq> CHR ''X''"
    "c \<noteq> CHR ''u''" "c \<noteq> CHR ''{''" "c \<noteq> CHR ''}''" "c \<noteq> CHR ''o''"
  using assms by (auto simp: hexdigit_def Let_def)

lemma scan_digits_hex:
  "list_all hexdigit s \<Longrightarrow> prev \<noteq> CHR ''_'' \<Longrightarrow>
     \<exists>v. scan_digits prev acc s = Some (v, []) \<and> acc * 16 ^ length s \<le> v \<and>
         v < (acc + 1) * 16 ^ length s"
proof (induction s arbitrary: prev acc)
  case Nil
  then show ?case by simp
next
  case (Cons c cs)
  from Cons.prems have hc: "hexdigit c" and hcs: "list_all hexdigit cs" by simp_all
  from hc have c1: "c \<noteq> CHR ''_''" and c2: "digit_value c < 16"
    by (simp_all add: hexdigit_neq hexdigit_digit_value)
  from Cons.IH [OF hcs c1, of "16 * acc + digit_value c"]
  obtain v where v: "scan_digits c (16 * acc + digit_value c) cs = Some (v, [])"
    and lo: "(16 * acc + digit_value c) * 16 ^ length cs \<le> v"
    and hi: "v < (16 * acc + digit_value c + 1) * 16 ^ length cs" by blast
  have p: "(0::int) < 16 ^ length cs" by simp
  have "acc * 16 ^ length (c # cs) = (16 * acc) * 16 ^ length cs" by simp
  also have "\<dots> \<le> (16 * acc + digit_value c) * 16 ^ length cs"
    using digit_value_nonneg [of c] p by (intro mult_right_mono) simp_all
  finally have lo': "acc * 16 ^ length (c # cs) \<le> v" using lo by linarith
  have "(16 * acc + digit_value c + 1) * 16 ^ length cs \<le> (16 * acc + 16) * 16 ^ length cs"
    using c2 p by (intro mult_right_mono) simp_all
  also have "\<dots> = (acc + 1) * 16 ^ length (c # cs)" by (simp add: algebra_simps)
  finally have hi': "v < (acc + 1) * 16 ^ length (c # cs)" using hi by linarith
  from v c1 c2 lo' hi' show ?case by simp
qed

lemma scan_digits_bound:
  "scan_digits prev acc s = Some (v, rest) \<Longrightarrow> 0 \<le> acc \<Longrightarrow>
     0 \<le> v \<and> v < (acc + 1) * 16 ^ length s"
proof (induction s arbitrary: prev acc)
  case Nil
  then show ?case by (simp split: if_splits)
next
  case (Cons c cs)
  have p: "(1::int) \<le> 16 ^ length cs" by simp
  show ?case
  proof (cases "c = CHR ''_''")
    case True
    with Cons.prems have "scan_digits c acc cs = Some (v, rest)" by (simp split: if_splits)
    from Cons.IH [OF this Cons.prems(2)]
    have "0 \<le> v" and "v < (acc + 1) * 16 ^ length cs" by simp_all
    moreover have "(acc + 1) * 16 ^ length cs \<le> (acc + 1) * 16 ^ length (c # cs)"
      using Cons.prems(2) by (intro mult_left_mono) simp_all
    ultimately show ?thesis by linarith
  next
    case False
    show ?thesis
    proof (cases "digit_value c < 16")
      case True
      with False Cons.prems
      have s: "scan_digits c (16 * acc + digit_value c) cs = Some (v, rest)" by simp
      have "0 \<le> 16 * acc + digit_value c"
        using Cons.prems(2) digit_value_nonneg [of c] by simp
      from Cons.IH [OF s this]
      have "0 \<le> v" and hi: "v < (16 * acc + digit_value c + 1) * 16 ^ length cs" by simp_all
      have "(16 * acc + digit_value c + 1) * 16 ^ length cs \<le> (16 * acc + 16) * 16 ^ length cs"
        using True by (intro mult_right_mono) simp_all
      also have "\<dots> = (acc + 1) * 16 ^ length (c # cs)" by (simp add: algebra_simps)
      finally show ?thesis using hi \<open>0 \<le> v\<close> by linarith
    next
      case d: False
      with False Cons.prems have "v = acc" by (simp split: if_splits)
      moreover have "acc < (acc + 1) * 16 ^ length (c # cs)"
      proof -
        define P :: int where "P = 16 ^ length (c # cs)"
        have "1 \<le> P" unfolding P_def by (rule one_le_power) simp
        then have "(acc + 1) * 1 \<le> (acc + 1) * P"
          using Cons.prems(2) by (intro mult_left_mono) simp_all
        then have "acc < (acc + 1) * P" by simp
        then show ?thesis unfolding P_def .
      qed
      ultimately show ?thesis using Cons.prems(2) by blast
    qed
  qed
qed

lemma transform_hex: "list_all hexdigit s \<Longrightarrow> transform_decimal_and_space_to_ascii s = s"
proof -
  assume "list_all hexdigit s"
  then have "list_all (\<lambda>c. (of_char c :: int) < 128) s"
    by (induction s) (auto dest: hexdigit_ascii)
  then show ?thesis by (simp add: transform_decimal_and_space_to_ascii_def)
qed

lemma length_transform_non_ascii: "length (transform_non_ascii s) \<le> length s"
  by (induction s) auto

lemma set_transform_non_ascii:
  "set (transform_non_ascii s) \<subseteq> set s \<union> {CHR '' '', CHR ''?''}"
  by (induction s) auto

lemma length_transform: "length (transform_decimal_and_space_to_ascii s) \<le> length s"
  by (simp add: transform_decimal_and_space_to_ascii_def length_transform_non_ascii)

lemma minus_transform:
  "CHR ''-'' \<notin> set s \<Longrightarrow> CHR ''-'' \<notin> set (transform_decimal_and_space_to_ascii s)"
  using set_transform_non_ascii [of s]
  by (auto simp: transform_decimal_and_space_to_ascii_def)

lemma long_from_string_base_bound:
  "long_from_string_base s = Some (v, rest) \<Longrightarrow> 0 \<le> v \<and> v < 16 ^ length s"
proof -
  assume a: "long_from_string_base s = Some (v, rest)"
  then have "scan_digits (CHR 0x00) 0 s = Some (v, rest)"
    by (auto simp: long_from_string_base_def split: list.splits if_splits option.splits)
  from scan_digits_bound [OF this] show ?thesis by simp
qed

lemma skip_sign_cases:
  "skip_sign s = (sg, r) \<Longrightarrow> (sg = 1 \<or> sg = - 1) \<and> length r \<le> length s \<and>
     (CHR ''-'' \<notin> set s \<longrightarrow> sg = 1)"
  by (auto simp: skip_sign_def split: list.splits if_splits)

lemma length_skip_base_prefix: "length (skip_base_prefix s) \<le> length s"
  by (auto simp: skip_base_prefix_def split: list.splits)

lemma PyLong_FromString_bound:
  assumes "PyLong_FromString s = Some v"
  shows "- (16 ^ length s) < v \<and> v < 16 ^ length s \<and> (CHR ''-'' \<notin> set s \<longrightarrow> 0 \<le> v)"
proof -
  obtain sg r where sr: "skip_sign (dropWhile c_isspace s) = (sg, r)" by force
  from assms sr obtain v0 rest where
    l: "long_from_string_base (skip_base_prefix r) = Some (v0, rest)" and v: "v = sg * v0"
    by (auto simp: PyLong_FromString_def split: option.splits if_splits)
  from skip_sign_cases [OF sr]
  have sg: "sg = 1 \<or> sg = - 1" and lr: "length r \<le> length (dropWhile c_isspace s)"
    and m: "CHR ''-'' \<notin> set (dropWhile c_isspace s) \<longrightarrow> sg = 1" by simp_all
  have "length (dropWhile c_isspace s) \<le> length s" by (rule length_dropWhile_le)
  with lr length_skip_base_prefix [of r]
  have len: "length (skip_base_prefix r) \<le> length s" by linarith
  from long_from_string_base_bound [OF l]
  have v0: "0 \<le> v0" "v0 < 16 ^ length (skip_base_prefix r)" by simp_all
  have "(16::int) ^ length (skip_base_prefix r) \<le> 16 ^ length s"
    using len by (intro power_increasing) simp_all
  with v0 have b: "v0 < 16 ^ length s" by linarith
  have "CHR ''-'' \<notin> set s \<Longrightarrow> sg = 1"
    using m set_dropWhileD [of "CHR ''-''" c_isspace s] by blast
  with sg v v0 b show ?thesis by auto
qed

lemma py_int16_bound:
  assumes "py_int16 s = Inr v"
  shows "- (16 ^ length s) < v \<and> v < 16 ^ length s \<and> (CHR ''-'' \<notin> set s \<longrightarrow> 0 \<le> v)"
proof -
  let ?t = "transform_decimal_and_space_to_ascii s"
  from assms have p: "PyLong_FromString ?t = Some v"
    by (simp add: py_int16_def split: option.splits)
  from PyLong_FromString_bound [OF p]
  have a: "- (16 ^ length ?t) < v" "v < 16 ^ length ?t" "CHR ''-'' \<notin> set ?t \<longrightarrow> 0 \<le> v"
    by simp_all
  have le: "(16::int) ^ length ?t \<le> 16 ^ length s"
    using length_transform [of s] by (intro power_increasing) simp_all
  have "- (16 ^ length s) < v" using a(1) le by linarith
  moreover have "v < 16 ^ length s" using a(2) le by linarith
  moreover have "CHR ''-'' \<notin> set s \<longrightarrow> 0 \<le> v" using a(3) minus_transform [of s] by blast
  ultimately show ?thesis by blast
qed

lemma py_int16_raises: "py_int16 s = Inl e \<Longrightarrow> e = ValueError"
  by (simp add: py_int16_def split: option.splits)

lemma py_int16_hex:
  assumes "list_all hexdigit s" and "s \<noteq> []"
  shows "\<exists>v. py_int16 s = Inr v \<and> 0 \<le> v \<and> v < 16 ^ length s"
proof -
  from assms obtain c cs where s: "s = c # cs" by (cases s) auto
  with assms have hc: "hexdigit c" by simp
  have d: "dropWhile c_isspace s = s" using hc s by (simp add: hexdigit_not_space)
  have sg: "skip_sign s = (1, s)" using hc s by (simp add: skip_sign_def hexdigit_neq)
  have bp: "skip_base_prefix s = s"
  proof (cases cs)
    case Nil
    with s show ?thesis by (simp add: skip_base_prefix_def)
  next
    case (Cons b bs)
    with assms s have "hexdigit b" by simp
    then have "b \<noteq> CHR ''x''" "b \<noteq> CHR ''X''" by (simp_all add: hexdigit_neq)
    with s Cons show ?thesis by (simp add: skip_base_prefix_def)
  qed
  from scan_digits_hex [OF assms(1), of "CHR 0x00" 0]
  obtain v where v: "scan_digits (CHR 0x00) 0 s = Some (v, [])" and "0 \<le> v"
    and "v < 16 ^ length s" by auto
  have "long_from_string_base s = Some (v, [])"
    using v s hc by (simp add: long_from_string_base_def hexdigit_neq)
  then have "PyLong_FromString s = Some v"
    by (simp add: PyLong_FromString_def d sg bp)
  then have "py_int16 s = Inr v"
    by (simp add: py_int16_def transform_hex [OF assms(1)])
  with \<open>0 \<le> v\<close> \<open>v < 16 ^ length s\<close> show ?thesis by blast
qed

lemma transform_co:
  "\<exists>r'. transform_decimal_and_space_to_ascii (CHR ''c'' # CHR ''o'' # r) = CHR ''c'' # CHR ''o'' # r'"
  by (simp add: transform_decimal_and_space_to_ascii_def)

lemma PyLong_FromString_co: "PyLong_FromString (CHR ''c'' # CHR ''o'' # r) = None"
  by (simp add: PyLong_FromString_def c_isspace_def skip_sign_def skip_base_prefix_def
      long_from_string_base_def digit_value_def)

lemma py_int16_co: "py_int16 (CHR ''c'' # CHR ''o'' # r) = Inl ValueError"
proof -
  obtain r' where "transform_decimal_and_space_to_ascii (CHR ''c'' # CHR ''o'' # r) =
      CHR ''c'' # CHR ''o'' # r'"
    using transform_co by blast
  then show ?thesis by (simp add: py_int16_def PyLong_FromString_co)
qed

lemma startswith_conv: "startswith s ''conv_'' \<Longrightarrow> \<exists>r. s = ''conv_'' @ r"
  unfolding startswith_def by (metis append_take_drop_id)

lemma py_int16_conv: "startswith s ''conv_'' \<Longrightarrow> py_int16 s = Inl ValueError"
  using startswith_conv [of s] py_int16_co by auto

section \<open>Lemmas about \<open>uuid.UUID\<close>\<close>

lemma replace_del_absent:
  "old \<noteq> [] \<Longrightarrow> hd old \<notin> set s \<Longrightarrow> replace_del old s = s"
proof (induction s)
  case Nil
  then show ?case by simp
next
  case (Cons c cs)
  from Cons.prems obtain a as where old: "old = a # as" by (cases old) auto
  with Cons.prems have "a \<noteq> c" by auto
  with old have "\<not> startswith (c # cs) old" by (auto simp: startswith_def)
  with Cons show ?case by simp
qed

lemma replace_del_single: "replace_del [a] s = filter (\<lambda>c. c \<noteq> a) s"
  by (induction s) (auto simp: startswith_def)

lemma replace_del_keep2:
  "old \<noteq> [] \<Longrightarrow> hd old \<noteq> a \<Longrightarrow> hd old \<noteq> b \<Longrightarrow>
     replace_del old (a # b # r) = a # b # replace_del old r"
  by (cases old) (auto simp: startswith_def)

lemma strip_chars_absent: "list_all (\<lambda>c. \<not> P c) s \<Longrightarrow> strip_chars P s = s"
proof -
  assume a: "list_all (\<lambda>c. \<not> P c) s"
  then have "dropWhile P s = s" by (cases s) auto
  moreover from a have "list_all (\<lambda>c. \<not> P c) (rev s)" by (simp add: list_all_iff)
  then have "dropWhile P (rev s) = rev s" by (cases "rev s") auto
  ultimately show ?thesis by (simp add: strip_chars_def)
qed

lemma strip_chars_keep2:
  "\<not> P a \<Longrightarrow> \<not> P b \<Longrightarrow> strip_chars P (a # b # r) = a # b # rev (dropWhile P (rev r))"
  by (simp add: strip_chars_def dropWhile_append)

lemma UUID_hex_raises: "UUID_hex s = Inl e \<Longrightarrow> e = ValueError"
  by (auto simp: UUID_hex_def Let_def split: if_splits sum.splits dest: py_int16_raises)

lemma UUID_hex_co: "UUID_hex (CHR ''c'' # CHR ''o'' # r) = Inl ValueError"
proof -
  let ?P = "\<lambda>c. c = CHR ''{'' \<or> c = CHR ''}''"
  have 1: "replace_del ''urn:'' (CHR ''c'' # CHR ''o'' # r) =
      CHR ''c'' # CHR ''o'' # replace_del ''urn:'' r"
    by (rule replace_del_keep2) simp_all
  have 2: "replace_del ''uuid:'' (CHR ''c'' # CHR ''o'' # replace_del ''urn:'' r) =
      CHR ''c'' # CHR ''o'' # replace_del ''uuid:'' (replace_del ''urn:'' r)"
    by (rule replace_del_keep2) simp_all
  let ?r2 = "replace_del ''uuid:'' (replace_del ''urn:'' r)"
  have 3: "strip_chars ?P (CHR ''c'' # CHR ''o'' # ?r2) =
      CHR ''c'' # CHR ''o'' # rev (dropWhile ?P (rev ?r2))"
    by (rule strip_chars_keep2) simp_all
  let ?r3 = "rev (dropWhile ?P (rev ?r2))"
  have 4: "replace_del ''-'' (CHR ''c'' # CHR ''o'' # ?r3) =
      CHR ''c'' # CHR ''o'' # replace_del ''-'' ?r3"
    by (rule replace_del_keep2) simp_all
  show ?thesis
    unfolding UUID_hex_def Let_def 1 2 3 4 by (simp add: py_int16_co)
qed

lemma UUID_hex_conv: "startswith s ''conv_'' \<Longrightarrow> UUID_hex s = Inl ValueError"
  using startswith_conv [of s] UUID_hex_co by auto

lemma UUID_hex_iff:
  "(\<exists>u. UUID_hex s = Inr u) \<longleftrightarrow>
   (let h = replace_del ''-'' (strip_chars (\<lambda>c. c = CHR ''{'' \<or> c = CHR ''}'')
              (replace_del ''uuid:'' (replace_del ''urn:'' s)))
    in length h = 32 \<and> (\<exists>i. py_int16 h = Inr i))"
proof -
  let ?h = "replace_del ''-'' (strip_chars (\<lambda>c. c = CHR ''{'' \<or> c = CHR ''}'')
              (replace_del ''uuid:'' (replace_del ''urn:'' s)))"
  have m: "CHR ''-'' \<notin> set ?h" by (simp add: replace_del_single)
  have "0 \<le> i \<and> i < 2 ^ 128" if "py_int16 ?h = Inr i" and "length ?h = 32" for i
  proof -
    from py_int16_bound [OF that(1)] m that(2)
    have "0 \<le> i" and "i < 16 ^ 32" by auto
    then show ?thesis by simp
  qed
  then show ?thesis
    by (auto simp: UUID_hex_def Let_def split: sum.splits)
qed

lemma uuid_decompose:
  assumes "length s = 36"
  shows "s = take 8 s @ s ! 8 # take 4 (drop 9 s) @ s ! 13 # take 4 (drop 14 s) @
             s ! 18 # take 4 (drop 19 s) @ s ! 23 # drop 24 s"
proof -
  have a: "s = take 8 s @ drop 8 s" by simp
  have b: "drop 8 s = s ! 8 # drop 9 s"
    using assms Cons_nth_drop_Suc [of 8 s] by simp
  have c: "drop 9 s = take 4 (drop 9 s) @ drop 13 s"
    using append_take_drop_id [of 4 "drop 9 s"] by simp
  have d: "drop 13 s = s ! 13 # drop 14 s"
    using assms Cons_nth_drop_Suc [of 13 s] by simp
  have e: "drop 14 s = take 4 (drop 14 s) @ drop 18 s"
    using append_take_drop_id [of 4 "drop 14 s"] by simp
  have f: "drop 18 s = s ! 18 # drop 19 s"
    using assms Cons_nth_drop_Suc [of 18 s] by simp
  have g: "drop 19 s = take 4 (drop 19 s) @ drop 23 s"
    using append_take_drop_id [of 4 "drop 19 s"] by simp
  have h: "drop 23 s = s ! 23 # drop 24 s"
    using assms Cons_nth_drop_Suc [of 23 s] by simp
  have "s = take 8 s @ s ! 8 # drop 9 s" using a b by simp
  also have "\<dots> = take 8 s @ s ! 8 # take 4 (drop 9 s) @ s ! 13 # drop 14 s"
    using c d by simp
  also have "\<dots> = take 8 s @ s ! 8 # take 4 (drop 9 s) @ s ! 13 # take 4 (drop 14 s) @
      s ! 18 # drop 19 s"
    using e f by simp
  also have "\<dots> = take 8 s @ s ! 8 # take 4 (drop 9 s) @ s ! 13 # take 4 (drop 14 s) @
      s ! 18 # take 4 (drop 19 s) @ s ! 23 # drop 24 s"
    using g h by simp
  finally show ?thesis .
qed

lemma canonical_uuid_with_parts:
  assumes "canonical_uuid_with dg s"
  shows "s = take 8 s @ CHR ''-'' # take 4 (drop 9 s) @ CHR ''-'' # take 4 (drop 14 s) @
             CHR ''-'' # take 4 (drop 19 s) @ CHR ''-'' # drop 24 s"
    and "length (uuid_groups s) = 32" and "list_all dg (uuid_groups s)"
proof -
  from assms have l: "length s = 36" and h: "s ! 8 = CHR ''-''" "s ! 13 = CHR ''-''"
    "s ! 18 = CHR ''-''" "s ! 23 = CHR ''-''" and g: "list_all dg (uuid_groups s)"
    by (simp_all add: canonical_uuid_with_def)
  from uuid_decompose [OF l] h
  show "s = take 8 s @ CHR ''-'' # take 4 (drop 9 s) @ CHR ''-'' # take 4 (drop 14 s) @
             CHR ''-'' # take 4 (drop 19 s) @ CHR ''-'' # drop 24 s" by simp
  show "length (uuid_groups s) = 32" using l by (simp add: uuid_groups_def)
  show "list_all dg (uuid_groups s)" by (rule g)
qed

lemma canonical_uuid_filter:
  assumes "canonical_uuid s"
  shows "filter (\<lambda>c. c \<noteq> CHR ''-'') s = uuid_groups s"
    and "set s \<subseteq> insert (CHR ''-'') (set (uuid_groups s))"
proof -
  from assms have c: "canonical_uuid_with hexdigit s" by (simp add: canonical_uuid_def)
  note p = canonical_uuid_with_parts [OF c]
  let ?a = "take 8 s" and ?b = "take 4 (drop 9 s)" and ?c = "take 4 (drop 14 s)"
    and ?d = "take 4 (drop 19 s)" and ?e = "drop 24 s"
  have g: "uuid_groups s = ?a @ ?b @ ?c @ ?d @ ?e" by (simp add: uuid_groups_def)
  have nh: "filter (\<lambda>c. c \<noteq> CHR ''-'') (uuid_groups s) = uuid_groups s"
    using p(3) by (auto simp: filter_id_conv list_all_iff hexdigit_neq)
  have "filter (\<lambda>c. c \<noteq> CHR ''-'') s =
      filter (\<lambda>c. c \<noteq> CHR ''-'') (?a @ CHR ''-'' # ?b @ CHR ''-'' # ?c @ CHR ''-'' # ?d @ CHR ''-'' # ?e)"
    using p(1) by simp
  also have "\<dots> = filter (\<lambda>c. c \<noteq> CHR ''-'') (?a @ ?b @ ?c @ ?d @ ?e)" by simp
  also have "\<dots> = uuid_groups s" using nh g by simp
  finally show "filter (\<lambda>c. c \<noteq> CHR ''-'') s = uuid_groups s" .
  have "set s = set (?a @ CHR ''-'' # ?b @ CHR ''-'' # ?c @ CHR ''-'' # ?d @ CHR ''-'' # ?e)"
    using p(1) by simp
  also have "\<dots> \<subseteq> insert (CHR ''-'') (set (?a @ ?b @ ?c @ ?d @ ?e))" by auto
  finally show "set s \<subseteq> insert (CHR ''-'') (set (uuid_groups s))" using g by simp
qed

lemma UUID_hex_canonical:
  assumes "canonical_uuid s"
  shows "\<exists>u. UUID_hex s = Inr u"
proof -
  from assms have c: "canonical_uuid_with hexdigit s" by (simp add: canonical_uuid_def)
  note p = canonical_uuid_with_parts [OF c]
  note f = canonical_uuid_filter [OF assms]
  have hx: "hexdigit x \<or> x = CHR ''-''" if "x \<in> set s" for x
    using that f(2) p(3) by (auto simp: list_all_iff)
  have "CHR ''u'' \<notin> set s" using hx hexdigit_neq(6) by fastforce
  then have 1: "replace_del ''urn:'' s = s" and 2: "replace_del ''uuid:'' s = s"
    by (simp_all add: replace_del_absent)
  have "list_all (\<lambda>c. \<not> (c = CHR ''{'' \<or> c = CHR ''}'')) s"
    using hx hexdigit_neq(7,8) by (fastforce simp: list_all_iff)
  then have 3: "strip_chars (\<lambda>c. c = CHR ''{'' \<or> c = CHR ''}'') s = s"
    by (rule strip_chars_absent)
  have 4: "replace_del ''-'' s = uuid_groups s" by (simp add: replace_del_single f(1))
  have ne: "uuid_groups s \<noteq> []" using p(2) by auto
  from py_int16_hex [OF p(3) ne] obtain v where "py_int16 (uuid_groups s) = Inr v" by blast
  with p(2) have "let h = uuid_groups s in length h = 32 \<and> (\<exists>i. py_int16 h = Inr i)"
    by (simp add: Let_def)
  then show ?thesis unfolding UUID_hex_iff 1 2 3 4 .
qed

section \<open>Lemmas about \<open>check_suid\<close>\<close>

lemma check_suid_str:
  "check_suid (PyStr s) =
     Inr (if length (normalize_conversation_id s) = 48
          then (\<exists>i. py_int16 (normalize_conversation_id s) = Inr i)
          else (\<exists>u. UUID_hex s = Inr u))"
  by (auto simp: check_suid_def normalize_conversation_id_def Let_def
      split: sum.splits py_exception.splits dest: py_int16_raises UUID_hex_raises)

lemma check_suid_total: "\<exists>b. check_suid v = Inr b"
proof (cases v)
  case (PyStr s)
  then show ?thesis by (simp add: check_suid_str)
qed (auto simp: check_suid_def)

lemma hex_not_conv: "list_all hexdigit s \<Longrightarrow> \<not> startswith s ''conv_''"
proof
  assume h: "list_all hexdigit s" and "startswith s ''conv_''"
  then obtain r where "s = ''conv_'' @ r" using startswith_conv by blast
  with h have "hexdigit (CHR ''o'')" by simp
  then show False by (simp add: hexdigit_def)
qed

lemma check_suid_hex48:
  assumes "list_all hexdigit h" and "length h = 48"
  shows "check_suid (PyStr h) = Inr True" and "check_suid (PyStr (''conv_'' @ h)) = Inr True"
proof -
  from assms have ne: "h \<noteq> []" by auto
  from py_int16_hex [OF assms(1) ne] obtain v where v: "py_int16 h = Inr v" by blast
  have n1: "normalize_conversation_id h = h"
    using hex_not_conv [OF assms(1)] by (simp add: normalize_conversation_id_def)
  have n2: "normalize_conversation_id (''conv_'' @ h) = h"
    by (simp add: normalize_conversation_id_def startswith_def)
  show "check_suid (PyStr h) = Inr True" using v assms(2) by (simp add: check_suid_str n1)
  show "check_suid (PyStr (''conv_'' @ h)) = Inr True"
    using v assms(2) unfolding check_suid_str n2 by simp
qed

lemma UUID_hex_all_hex:
  assumes "list_all hexdigit s"
  shows "(\<exists>u. UUID_hex s = Inr u) \<longleftrightarrow> length s = 32"
proof -
  have "CHR ''u'' \<notin> set s" using assms hexdigit_neq(6) by (fastforce simp: list_all_iff)
  then have 1: "replace_del ''urn:'' s = s" and 2: "replace_del ''uuid:'' s = s"
    by (simp_all add: replace_del_absent)
  have "list_all (\<lambda>c. \<not> (c = CHR ''{'' \<or> c = CHR ''}'')) s"
    using assms hexdigit_neq(7,8) by (fastforce simp: list_all_iff)
  then have 3: "strip_chars (\<lambda>c. c = CHR ''{'' \<or> c = CHR ''}'') s = s"
    by (rule strip_chars_absent)
  have 4: "replace_del ''-'' s = s"
    using assms hexdigit_neq(3) by (fastforce simp: replace_del_single filter_id_conv list_all_iff)
  have "\<exists>i. py_int16 s = Inr i" if "length s = 32"
  proof -
    from that have "s \<noteq> []" by auto
    from py_int16_hex [OF assms this] show ?thesis by blast
  qed
  then show ?thesis unfolding UUID_hex_iff 1 2 3 4 by (auto simp: Let_def)
qed

lemma check_suid_hex_other:
  assumes "list_all hexdigit s" and "length s \<noteq> 48" and "length s \<noteq> 32"
  shows "check_suid (PyStr s) = Inr False"
proof -
  have n: "normalize_conversation_id s = s"
    using hex_not_conv [OF assms(1)] by (simp add: normalize_conversation_id_def)
  show ?thesis using assms UUID_hex_all_hex [OF assms(1)] by (simp add: check_suid_str n)
qed

lemma check_suid_canonical: "canonical_uuid s \<Longrightarrow> check_suid (PyStr s) = Inr True"
proof -
  assume c: "canonical_uuid s"
  from UUID_hex_canonical [OF c] obtain u where u: "UUID_hex s = Inr u" by blast
  then have "\<not> startswith s ''conv_''" using UUID_hex_conv [of s] by auto
  then have n: "normalize_conversation_id s = s" by (simp add: normalize_conversation_id_def)
  from c have "length s = 36" by (simp add: canonical_uuid_def canonical_uuid_with_def)
  with u show ?thesis by (simp add: check_suid_str n)
qed

lemma valid_normalized:
  assumes "check_suid (PyStr s) = Inr True"
  shows "check_suid (PyStr (normalize_conversation_id s)) = Inr True"
    and "\<not> startswith (normalize_conversation_id s) ''conv_''"
proof -
  let ?h = "normalize_conversation_id s"
  have *: "check_suid (PyStr ?h) = Inr True \<and> \<not> startswith ?h ''conv_''"
  proof (cases "startswith s ''conv_''")
    case False
    with assms show ?thesis by (simp add: normalize_conversation_id_def)
  next
    case True
    then have u: "UUID_hex s = Inl ValueError" by (rule UUID_hex_conv)
    from assms u have l: "length ?h = 48" and "\<exists>i. py_int16 ?h = Inr i"
      by (auto simp: check_suid_str split: if_splits)
    then obtain i where i: "py_int16 ?h = Inr i" by blast
    then have nc: "\<not> startswith ?h ''conv_''" using py_int16_conv [of ?h] by auto
    then have "normalize_conversation_id ?h = ?h" by (simp add: normalize_conversation_id_def)
    with l i nc show ?thesis by (simp add: check_suid_str)
  qed
  from * show "check_suid (PyStr ?h) = Inr True" by simp
  from * show "\<not> startswith ?h ''conv_''" by simp
qed

section \<open>Lemmas about \<open>uuid.uuid4\<close> and \<open>str\<close> of a UUID\<close>

lemma of_char_int_bounds: "0 \<le> (of_char c :: int) \<and> (of_char c :: int) < 256"
proof -
  have "(of_char c :: int) = int (of_char c)" by (simp add: of_nat_of_char)
  moreover have "(of_char c :: nat) < 256" by simp
  ultimately show ?thesis by linarith
qed

lemma foldl_bytes_bound:
  fixes acc :: int
  shows "0 \<le> acc \<Longrightarrow>
     0 \<le> foldl (\<lambda>acc b. 256 * acc + of_char b) acc bs \<and>
     foldl (\<lambda>acc b. 256 * acc + of_char b) acc bs < (acc + 1) * 256 ^ length bs"
proof (induction bs arbitrary: acc)
  case Nil
  then show ?case by simp
next
  case (Cons b bs)
  let ?a = "256 * acc + of_char b"
  have a0: "0 \<le> ?a" using Cons.prems of_char_int_bounds [of b] by simp
  from Cons.IH [OF a0]
  have lo: "0 \<le> foldl (\<lambda>acc b. 256 * acc + of_char b) ?a bs"
    and hi: "foldl (\<lambda>acc b. 256 * acc + of_char b) ?a bs < (?a + 1) * 256 ^ length bs"
    by simp_all
  have "(?a + 1) * 256 ^ length bs \<le> (256 * acc + 256) * 256 ^ length bs"
    using of_char_int_bounds [of b] by (intro mult_right_mono) simp_all
  also have "\<dots> = (acc + 1) * 256 ^ length (b # bs)" by (simp add: algebra_simps)
  finally have le: "(?a + 1) * 256 ^ length bs \<le> (acc + 1) * 256 ^ length (b # bs)" .
  have st: "foldl (\<lambda>acc b. 256 * acc + of_char b) acc (b # bs) =
      foldl (\<lambda>acc b. 256 * acc + of_char b) ?a bs" by simp
  show ?case unfolding st using lo hi le by linarith
qed

lemma int_from_bytes_bound:
  "0 \<le> int_from_bytes bs \<and> int_from_bytes bs < 256 ^ length bs"
  using foldl_bytes_bound [of 0 bs] by (simp add: int_from_bytes_def)


lemma mask_version: "push_bit 64 (0xf000::int) = push_bit 76 (mask 4)"
  by (simp add: mask_eq_exp_minus_1 push_bit_eq_mult)

lemma four_push_bit: "(4::int) = push_bit 2 1"
  by simp

lemma version_bits:
  fixes i2 :: int
  shows "take_bit 4 (drop_bit 76 (or (and i2 (not (push_bit 64 0xf000))) (push_bit 76 4))) = 4"
  unfolding mask_version
  apply (subst (2) four_push_bit)
  apply (subst (1) four_push_bit)
  apply (rule bit_eqI)
  apply (auto simp add: bit_simps)
  done

lemma UUID_bytes_eq:
  assumes "length bs = 16" and "0 \<le> int_from_bytes bs" and "int_from_bytes bs < 2 ^ 128"
    and "1 \<le> v" and "v \<le> 5"
  shows "UUID_bytes bs v =
    Inr (or (and (or (and (int_from_bytes bs) (not (push_bit 48 0xc000))) (push_bit 48 0x8000))
                 (not (push_bit 64 0xf000))) (push_bit 76 v))"
  using assms by (simp add: UUID_bytes_def Let_def)

lemma UUID_bytes_version4:
  assumes "length bs = 16"
  shows "\<exists>u. UUID_bytes bs 4 = Inr u \<and> 0 \<le> u \<and> u < 2 ^ 128 \<and> (u div 16 ^ 19) mod 16 = 4"
proof -
  let ?i = "int_from_bytes bs"
  from int_from_bytes_bound [of bs] assms
  have i: "0 \<le> ?i" "?i < 2 ^ 128" by simp_all
  define i1 where "i1 = and ?i (not (push_bit 48 0xc000))"
  define i2 where "i2 = or i1 (push_bit 48 0x8000)"
  define i3 where "i3 = and i2 (not (push_bit 64 0xf000))"
  define u where "u = or i3 (push_bit 76 4)"
  have 1: "0 \<le> i1" "i1 < 2 ^ 128" using i unfolding i1_def by simp_all
  have 2: "0 \<le> i2" "i2 < 2 ^ 128"
    using 1 unfolding i2_def by (simp, intro OR_upper) simp_all
  have 3: "0 \<le> i3" "i3 < 2 ^ 128" using 2 unfolding i3_def by simp_all
  have 4: "0 \<le> u" "u < 2 ^ 128"
    using 3 unfolding u_def by (simp, intro OR_upper) simp_all
  have "take_bit 4 (drop_bit 76 u) = 4" unfolding u_def i3_def by (rule version_bits)
  then have v: "(u div 16 ^ 19) mod 16 = 4" by (simp add: take_bit_eq_mod drop_bit_eq_div)
  have "UUID_bytes bs 4 = Inr u"
    unfolding u_def i3_def i2_def i1_def by (rule UUID_bytes_eq [OF assms i]) simp_all
  with 4 v show ?thesis by blast
qed

lemma hex_chars_lower: "list_all lower_hexdigit ''0123456789abcdef''"
  by code_simp

lemma hex_char_lower: "0 \<le> d \<Longrightarrow> d < 16 \<Longrightarrow> lower_hexdigit (hex_char d)"
proof -
  assume "0 \<le> d" "d < 16"
  then have "nat d < length ''0123456789abcdef''" by simp
  with hex_chars_lower show ?thesis
    unfolding hex_char_def list_all_length by blast
qed

lemma to_hex_lower: "0 \<le> n \<Longrightarrow> list_all lower_hexdigit (to_hex n)"
proof (induction n rule: to_hex.induct)
  case (1 n)
  show ?case
  proof (cases "n < 16")
    case True
    with "1.prems" show ?thesis by (subst to_hex.simps) (simp add: hex_char_lower)
  next
    case False
    then have "0 \<le> n div 16" by simp
    with "1.IH" False have "list_all lower_hexdigit (to_hex (n div 16))" by simp
    moreover have "lower_hexdigit (hex_char (n mod 16))" by (rule hex_char_lower) simp_all
    ultimately show ?thesis using False by (subst to_hex.simps) simp
  qed
qed

lemma length_to_hex: "0 \<le> n \<Longrightarrow> n < 16 ^ k \<Longrightarrow> 0 < k \<Longrightarrow> length (to_hex n) \<le> k"
proof (induction k arbitrary: n)
  case 0
  then show ?case by simp
next
  case (Suc k)
  show ?case
  proof (cases "n < 16")
    case True
    then show ?thesis by (subst to_hex.simps) simp
  next
    case False
    define P :: int where "P = 16 ^ k"
    from Suc.prems have "n < 16 * P" by (simp add: P_def)
    then have d: "n div 16 < P" by linarith
    from False have d0: "0 \<le> n div 16" by simp
    have k: "0 < k"
    proof (rule ccontr)
      assume "\<not> 0 < k"
      then have "P = 1" by (simp add: P_def)
      with d d0 have "n div 16 = 0" by simp
      with False Suc.prems show False by simp
    qed
    from Suc.IH [OF d0 d [unfolded P_def] k]
    show ?thesis using False by (subst to_hex.simps) simp
  qed
qed

lemma to_hex_zero: "to_hex 0 = ''0''"
  by (subst to_hex.simps) (simp add: hex_char_def)


lemma zero_pad_step:
  assumes "0 \<le> n" and "0 < k" and "length (to_hex (n div 16)) \<le> k"
  shows "zero_pad (Suc k) n = zero_pad k (n div 16) @ [hex_char (n mod 16)]"
proof (cases "n < 16")
  case True
  with assms(1) have z: "n div 16 = 0" "n mod 16 = n" by simp_all
  have t: "to_hex n = [hex_char n]" using True by (subst to_hex.simps) simp
  from assms(2) obtain j where j: "k = Suc j" by (cases k) auto
  have "zero_pad k 0 = replicate j (CHR ''0'') @ ''0''" by (simp add: zero_pad_def to_hex_zero j)
  also have "\<dots> = replicate k (CHR ''0'')" unfolding j by (simp add: replicate_append_same)
  finally have p0: "zero_pad k 0 = replicate k (CHR ''0'')" .
  have "zero_pad (Suc k) n = replicate k (CHR ''0'') @ [hex_char n]" by (simp add: zero_pad_def t)
  then show ?thesis unfolding z p0 .
next
  case False
  then have t: "to_hex n = to_hex (n div 16) @ [hex_char (n mod 16)]"
    by (subst to_hex.simps) simp
  show ?thesis using assms(3) by (simp add: zero_pad_def t Suc_diff_le)
qed

lemma length_zero_pad: "length (to_hex n) \<le> k \<Longrightarrow> length (zero_pad k n) = k"
  by (simp add: zero_pad_def)

lemma zero_pad_nth:
  "0 \<le> n \<Longrightarrow> n < 16 ^ k \<Longrightarrow> j < k \<Longrightarrow>
     zero_pad k n ! j = hex_char ((n div 16 ^ (k - 1 - j)) mod 16)"
proof (induction k arbitrary: n j)
  case 0
  then show ?case by simp
next
  case (Suc k)
  show ?case
  proof (cases "k = 0")
    case True
    with Suc.prems have "n < 16" "j = 0" by simp_all
    then have "to_hex n = [hex_char n]" by (subst to_hex.simps) simp
    with True \<open>j = 0\<close> \<open>n < 16\<close> Suc.prems(1) show ?thesis by (simp add: zero_pad_def)
  next
    case False
    then have k: "0 < k" by simp
    define P :: int where "P = 16 ^ k"
    from Suc.prems have "n < 16 * P" by (simp add: P_def)
    then have "n div 16 < P" by linarith
    then have d: "n div 16 < 16 ^ k" by (simp add: P_def)
    from Suc.prems(1) have d0: "0 \<le> n div 16" by simp
    from length_to_hex [OF d0 d k] have l: "length (to_hex (n div 16)) \<le> k" .
    note st = zero_pad_step [OF Suc.prems(1) k l]
    show ?thesis
    proof (cases "j < k")
      case True
      from Suc.IH [OF d0 d True]
      have "zero_pad k (n div 16) ! j = hex_char ((n div 16 div 16 ^ (k - 1 - j)) mod 16)" .
      moreover have "n div 16 div 16 ^ (k - 1 - j) = n div 16 ^ (Suc k - 1 - j)"
      proof -
        from True have "Suc k - 1 - j = Suc (k - 1 - j)" by simp
        then show ?thesis by (simp add: zdiv_zmult2_eq)
      qed
      ultimately show ?thesis using True by (simp add: st nth_append length_zero_pad [OF l])
    next
      case False
      with Suc.prems have "j = k" by simp
      then show ?thesis by (simp add: st nth_append length_zero_pad [OF l])
    qed
  qed
qed

lemma format_032x_props:
  assumes "0 \<le> u" and "u < 2 ^ 128"
  shows "length (format_032x u) = 32" and "list_all lower_hexdigit (format_032x u)"
    and "format_032x u ! 12 = hex_char ((u div 16 ^ 19) mod 16)"
proof -
  from assms have b: "u < 16 ^ 32" by simp
  from length_to_hex [OF assms(1) b] have l: "length (to_hex u) \<le> 32" by simp
  have f: "format_032x u = zero_pad 32 u" using assms(1) by (simp add: format_032x_def zero_pad_def)
  show "length (format_032x u) = 32" unfolding f by (rule length_zero_pad [OF l])
  have "lower_hexdigit (CHR ''0'')" by (simp add: lower_hexdigit_def)
  then show "list_all lower_hexdigit (format_032x u)"
    using to_hex_lower [OF assms(1)] unfolding f zero_pad_def by (auto simp: list_all_iff)
  from zero_pad_nth [OF assms(1) b, of 12]
  show "format_032x u ! 12 = hex_char ((u div 16 ^ 19) mod 16)" unfolding f by simp
qed

lemma uuid_text_props:
  assumes "length h = 32"
  defines "s \<equiv> take 8 h @ ''-'' @ take 4 (drop 8 h) @ ''-'' @ take 4 (drop 12 h) @ ''-'' @
      take 4 (drop 16 h) @ ''-'' @ drop 20 h"
  shows "length s = 36" and "s ! 8 = CHR ''-''" and "s ! 13 = CHR ''-''"
    and "s ! 18 = CHR ''-''" and "s ! 23 = CHR ''-''" and "uuid_groups s = h"
    and "s ! 14 = h ! 12"
proof -
  define a b c d e where "a = take 8 h" and "b = take 4 (drop 8 h)"
    and "c = take 4 (drop 12 h)" and "d = take 4 (drop 16 h)" and "e = drop 20 h"
  have len: "length a = 8" "length b = 4" "length c = 4" "length d = 4" "length e = 12"
    using assms(1) by (simp_all add: a_def b_def c_def d_def e_def)
  have s: "s = a @ ''-'' @ b @ ''-'' @ c @ ''-'' @ d @ ''-'' @ e"
    by (simp add: s_def a_def b_def c_def d_def e_def)
  have h: "h = a @ b @ c @ d @ e"
  proof -
    have "h = take 8 h @ drop 8 h" by simp
    also have "drop 8 h = take 4 (drop 8 h) @ drop 12 h"
      using append_take_drop_id [of 4 "drop 8 h"] by simp
    also have "drop 12 h = take 4 (drop 12 h) @ drop 16 h"
      using append_take_drop_id [of 4 "drop 12 h"] by simp
    also have "drop 16 h = take 4 (drop 16 h) @ drop 20 h"
      using append_take_drop_id [of 4 "drop 16 h"] by simp
    finally show ?thesis by (simp add: a_def b_def c_def d_def e_def)
  qed
  show "length s = 36" by (simp add: s len)
  show "s ! 8 = CHR ''-''" by (simp add: s len nth_append)
  show "s ! 13 = CHR ''-''" by (simp add: s len nth_append)
  show "s ! 18 = CHR ''-''" by (simp add: s len nth_append)
  show "s ! 23 = CHR ''-''" by (simp add: s len nth_append)
  show "uuid_groups s = h" by (simp add: s h len uuid_groups_def)
  have "s ! 14 = c ! 0" by (simp add: s len nth_append)
  also have "\<dots> = h ! 12" by (simp add: h len nth_append)
  finally show "s ! 14 = h ! 12" .
qed

lemma hex_char_4: "hex_char 4 = CHR ''4''"
  by (simp add: hex_char_def)

lemma get_suid_props:
  assumes "length urandom = 16"
  shows "\<exists>s. get_suid urandom = Inr s \<and> canonical_lower_uuid s \<and> s ! 14 = CHR ''4''"
proof -
  from UUID_bytes_version4 [OF assms] obtain u where
    u: "UUID_bytes urandom 4 = Inr u" and b: "0 \<le> u" "u < 2 ^ 128"
    and v: "(u div 16 ^ 19) mod 16 = 4" by blast
  note f = format_032x_props [OF b]
  note t = uuid_text_props [OF f(1)]
  have g: "get_suid urandom = Inr (UUID_str u)" by (simp add: get_suid_def u)
  have "canonical_lower_uuid (UUID_str u)"
    unfolding canonical_lower_uuid_def canonical_uuid_with_def UUID_str_def Let_def
    using t f(2) by simp
  moreover have "UUID_str u ! 14 = CHR ''4''"
    unfolding UUID_str_def Let_def t(7) f(3) v by (rule hex_char_4)
  ultimately show ?thesis using g by blast
qed

lemma canonical_lower_is_canonical: "canonical_lower_uuid s \<Longrightarrow> canonical_uuid s"
  unfolding canonical_lower_uuid_def canonical_uuid_def canonical_uuid_with_def
  by (auto simp: list_all_iff lower_hexdigit_hexdigit)

lemma mask_variant: "push_bit 48 (0xc000::int) = push_bit 62 (mask 2)"
  by (simp add: mask_eq_exp_minus_1 push_bit_eq_mult)

lemma bit_variant: "push_bit 48 (0x8000::int) = push_bit 63 1"
  by (simp add: push_bit_eq_mult)

lemma two_push_bit: "(2::int) = push_bit 1 1"
  by simp

lemma variant_bits:
  fixes i :: int
  shows "take_bit 2 (drop_bit 62
           (or (and (or (and i (not (push_bit 48 0xc000))) (push_bit 48 0x8000))
                    (not (push_bit 64 0xf000))) (push_bit 76 4))) = 2"
  unfolding mask_version mask_variant bit_variant
  apply (subst two_push_bit)
  apply (subst four_push_bit)
  apply (rule bit_eqI)
  apply (auto simp add: bit_simps)
  done

lemma variant_nibble:
  fixes u :: int
  assumes "take_bit 2 (drop_bit 62 u) = 2"
  shows "8 \<le> (u div 16 ^ 15) mod 16 \<and> (u div 16 ^ 15) mod 16 \<le> 11"
proof -
  define a where "a = u div 2 ^ 60"
  have "a div 4 = u div 2 ^ 62" unfolding a_def by (simp add: zdiv_zmult2_eq)
  with assms have "(a div 4) mod 4 = 2" by (simp add: take_bit_eq_mod drop_bit_eq_div)
  then have "8 \<le> a mod 16 \<and> a mod 16 \<le> 11" by presburger
  then show ?thesis by (simp add: a_def)
qed

lemma hex_char_variant: "8 \<le> d \<Longrightarrow> d \<le> 11 \<Longrightarrow> hex_char d \<in> set ''89ab''"
proof -
  assume "8 \<le> d" "d \<le> 11"
  then have "d = 8 \<or> d = 9 \<or> d = 10 \<or> d = 11" by presburger
  then show ?thesis by (auto simp: hex_char_def)
qed

lemma UUID_bytes_variant:
  assumes "length bs = 16" and "UUID_bytes bs 4 = Inr u"
  shows "8 \<le> (u div 16 ^ 15) mod 16 \<and> (u div 16 ^ 15) mod 16 \<le> 11"
proof -
  from int_from_bytes_bound [of bs] assms(1)
  have i: "0 \<le> int_from_bytes bs" "int_from_bytes bs < 2 ^ 128" by simp_all
  have "UUID_bytes bs 4 =
    Inr (or (and (or (and (int_from_bytes bs) (not (push_bit 48 0xc000))) (push_bit 48 0x8000))
                 (not (push_bit 64 0xf000))) (push_bit 76 4))"
    by (rule UUID_bytes_eq [OF assms(1) i]) simp_all
  with assms(2) have "u = or (and (or (and (int_from_bytes bs) (not (push_bit 48 0xc000)))
      (push_bit 48 0x8000)) (not (push_bit 64 0xf000))) (push_bit 76 4)" by simp
  then have "take_bit 2 (drop_bit 62 u) = 2" by (simp only: variant_bits)
  then show ?thesis by (rule variant_nibble)
qed

lemma format_032x_nth16:
  assumes "0 \<le> u" and "u < 2 ^ 128"
  shows "format_032x u ! 16 = hex_char ((u div 16 ^ 15) mod 16)"
proof -
  from assms have b: "u < 16 ^ 32" by simp
  have f: "format_032x u = zero_pad 32 u" using assms(1) by (simp add: format_032x_def zero_pad_def)
  from zero_pad_nth [OF assms(1) b, of 16] show ?thesis unfolding f by simp
qed

lemma uuid_text_nth19:
  assumes "length h = 32"
  shows "(take 8 h @ ''-'' @ take 4 (drop 8 h) @ ''-'' @ take 4 (drop 12 h) @ ''-'' @
      take 4 (drop 16 h) @ ''-'' @ drop 20 h) ! 19 = h ! 16"
proof -
  have "(take 8 h @ ''-'' @ take 4 (drop 8 h) @ ''-'' @ take 4 (drop 12 h) @ ''-'' @
      take 4 (drop 16 h) @ ''-'' @ drop 20 h) ! 19 = take 4 (drop 16 h) ! 0"
    using assms by (simp add: nth_append)
  also have "\<dots> = h ! 16" using assms by simp
  finally show ?thesis .
qed

lemma get_suid_variant:
  assumes "length urandom = 16" and "get_suid urandom = Inr s"
  shows "s ! 19 \<in> set ''89ab''"
proof -
  from UUID_bytes_version4 [OF assms(1)] obtain u where
    u: "UUID_bytes urandom 4 = Inr u" and b: "0 \<le> u" "u < 2 ^ 128" by blast
  from assms(2) u have s: "s = UUID_str u" by (simp add: get_suid_def)
  note f = format_032x_props(1) [OF b]
  from UUID_bytes_variant [OF assms(1) u]
  have "hex_char ((u div 16 ^ 15) mod 16) \<in> set ''89ab''" by (intro hex_char_variant) simp_all
  then have "format_032x u ! 16 \<in> set ''89ab''" by (simp only: format_032x_nth16 [OF b])
  then show ?thesis unfolding s UUID_str_def Let_def uuid_text_nth19 [OF f] .
qed

section \<open>Lemmas about the request models\<close>

lemma dropWhile_empty_iff: "dropWhile P s = [] \<longleftrightarrow> list_all P s"
  by (induction s) auto

lemma strip_chars_empty_iff: "strip_chars P s = [] \<longleftrightarrow> list_all P s"
proof
  assume "list_all P s"
  then have d: "dropWhile P s = []" by (simp add: list_all_iff)
  show "strip_chars P s = []" unfolding strip_chars_def d by simp
next
  assume "strip_chars P s = []"
  then have "list_all P (rev (dropWhile P s))"
    by (simp add: strip_chars_def list_all_iff)
  then have a: "list_all P (dropWhile P s)" by (simp add: list_all_iff)
  have "dropWhile P s = []"
  proof (cases "dropWhile P s")
    case Nil
    then show ?thesis .
  next
    case (Cons x xs)
    then have "\<not> P x" using hd_dropWhile [of P s] by simp
    with a Cons show ?thesis by simp
  qed
  then show "list_all P s" by (simp add: list_all_iff)
qed

lemma strip_empty_iff: "strip s = [] \<longleftrightarrow> list_all py_isspace s"
  by (simp add: strip_def strip_chars_empty_iff)






section \<open>Properties of the identifier conversions\<close>

text \<open>
  C5: for every string \<open>x\<close> that does not begin with \<open>conv_\<close>, normalising the
  external form of \<open>x\<close> gives \<open>x\<close> back.
\<close>

theorem normalize_to_llama_stack_id:
  "\<not> startswith x ''conv_'' \<Longrightarrow>
     normalize_conversation_id (to_llama_stack_conversation_id x) = x"
  by (simp add: normalize_conversation_id_def to_llama_stack_conversation_id_def
      startswith_def)

theorem normalize_to_llama_stack_id_witness:
  "\<not> startswith ''550e8400'' ''conv_'' \<and>
     normalize_conversation_id (to_llama_stack_conversation_id ''550e8400'') = ''550e8400''"
  using normalize_to_llama_stack_id [of "''550e8400''"]
  by (simp add: startswith_def)

text \<open>
  C8: \<open>to_llama_stack_conversation_id\<close> is idempotent on every string, and its result
  always begins with \<open>conv_\<close>.
\<close>

theorem to_llama_stack_id_idempotent:
  "to_llama_stack_conversation_id (to_llama_stack_conversation_id x) =
     to_llama_stack_conversation_id x \<and>
   startswith (to_llama_stack_conversation_id x) ''conv_''"
  by (simp add: to_llama_stack_conversation_id_def startswith_def)

section \<open>Properties of \<open>check_suid\<close>\<close>

text \<open>
  C3: a candidate whose part after the optional \<open>conv_\<close> has 48 characters is
  decided by \<open>int(hex_part, 16)\<close> alone. The claim expects every such string
  with a character that is no hexadecimal digit to be rejected; \<open>int\<close> also reads a
  sign, and here the 48 characters are a plus sign and 47 digits, and the code
  answers \<open>True\<close>.
\<close>

theorem check_suid_accepts_signed_48:
  "check_suid (PyStr ''+aaaaaaaaaaaaaaaaaaaaaaaaaaaaaaaaaaaaaaaaaaaaaaa'') = Inr True \<and>
   length (normalize_conversation_id ''+aaaaaaaaaaaaaaaaaaaaaaaaaaaaaaaaaaaaaaaaaaaaaaa'') = 48 \<and>
   \<not> list_all hexdigit ''+aaaaaaaaaaaaaaaaaaaaaaaaaaaaaaaaaaaaaaaaaaaaaaa''"
  by code_simp




text \<open>
  C10: normalisation preserves validity. If \<open>check_suid\<close> accepts \<open>s\<close>, it accepts
  \<open>normalize_conversation_id s\<close>, and that string does not begin with \<open>conv_\<close>.
\<close>

theorem normalize_preserves_validity:
  assumes "check_suid (PyStr s) = Inr True"
  shows "check_suid (PyStr (normalize_conversation_id s)) = Inr True \<and>
         \<not> startswith (normalize_conversation_id s) ''conv_''"
  using valid_normalized [OF assms] by blast

theorem normalize_preserves_validity_witness:
  "check_suid (PyStr ''conv_0123456789abcdef0123456789ABCDEF0123456789abcdef'') = Inr True \<and>
   check_suid (PyStr (normalize_conversation_id
     ''conv_0123456789abcdef0123456789ABCDEF0123456789abcdef'')) = Inr True \<and>
   normalize_conversation_id ''conv_0123456789abcdef0123456789ABCDEF0123456789abcdef'' =
     ''0123456789abcdef0123456789ABCDEF0123456789abcdef''"
proof -
  have h: "check_suid (PyStr ''conv_0123456789abcdef0123456789ABCDEF0123456789abcdef'') =
      Inr True" by code_simp
  have n: "normalize_conversation_id ''conv_0123456789abcdef0123456789ABCDEF0123456789abcdef'' =
      ''0123456789abcdef0123456789ABCDEF0123456789abcdef''" by code_simp
  from normalize_preserves_validity [OF h] h n show ?thesis by blast
qed

section \<open>Properties of \<open>get_suid\<close> and of the four operations together\<close>

text \<open>
  C7: whatever 16 bytes the random source returns, \<open>get_suid\<close> returns a string in
  canonical lowercase hyphenated form whose version digit is 4 and whose variant
  digit is one of 8, 9, a and b; that string is accepted by \<open>check_suid\<close>, through the
  UUID path, since after prefix stripping its length is not 48.
\<close>

theorem get_suid_is_valid_uuid4:
  assumes "length urandom = 16"
  shows "\<exists>s. get_suid urandom = Inr s \<and> canonical_lower_uuid s \<and> s ! 14 = CHR ''4'' \<and>
             s ! 19 \<in> set ''89ab'' \<and>
             length (normalize_conversation_id s) \<noteq> 48 \<and> check_suid (PyStr s) = Inr True"
proof -
  from get_suid_props [OF assms] obtain s where
    g: "get_suid urandom = Inr s" and c: "canonical_lower_uuid s" and v: "s ! 14 = CHR ''4''"
    by blast
  from c have l: "length s = 36"
    by (simp add: canonical_lower_uuid_def canonical_uuid_with_def)
  then have n: "length (normalize_conversation_id s) \<noteq> 48"
    by (simp add: normalize_conversation_id_def)
  from c have "check_suid (PyStr s) = Inr True"
    by (intro check_suid_canonical canonical_lower_is_canonical)
  with g c v n get_suid_variant [OF assms g] show ?thesis by blast
qed

theorem get_suid_is_valid_uuid4_witness:
  "length (replicate 16 (CHR 0xFF)) = 16 \<and>
   get_suid (replicate 16 (CHR 0xFF)) = Inr ''ffffffff-ffff-4fff-bfff-ffffffffffff'' \<and>
   check_suid (PyStr ''ffffffff-ffff-4fff-bfff-ffffffffffff'') = Inr True"
proof -
  have h: "length (replicate 16 (CHR 0xFF)) = 16" by simp
  have g: "get_suid (replicate 16 (CHR 0xFF)) = Inr ''ffffffff-ffff-4fff-bfff-ffffffffffff''"
    by code_simp
  from get_suid_is_valid_uuid4 [OF h] g
  have "check_suid (PyStr ''ffffffff-ffff-4fff-bfff-ffffffffffff'') = Inr True" by auto
  with h g show ?thesis by blast
qed

text \<open>
  C6: none of the four operations raises. \<open>check_suid\<close> returns a boolean for every
  value, \<open>False\<close> for every value that is not a string; \<open>get_suid\<close> returns a string;
  \<open>normalize_conversation_id\<close> and \<open>to_llama_stack_conversation_id\<close> remove and add
  the prefix on every string, valid or not.
\<close>

theorem identifier_operations_never_raise:
  "(\<exists>b. check_suid v = Inr b) \<and>
   ((\<forall>s. v \<noteq> PyStr s) \<longrightarrow> check_suid v = Inr False) \<and>
   (length urandom = 16 \<longrightarrow> (\<exists>s. get_suid urandom = Inr s)) \<and>
   normalize_conversation_id (''conv_'' @ x) = x \<and>
   to_llama_stack_conversation_id (''conv_'' @ x) = ''conv_'' @ x \<and>
   (\<not> startswith x ''conv_'' \<longrightarrow>
      normalize_conversation_id x = x \<and> to_llama_stack_conversation_id x = ''conv_'' @ x)"
proof -
  have "(\<forall>s. v \<noteq> PyStr s) \<longrightarrow> check_suid v = Inr False"
    by (cases v) (simp_all add: check_suid_def)
  moreover have "length urandom = 16 \<longrightarrow> (\<exists>s. get_suid urandom = Inr s)"
    using get_suid_props by blast
  moreover have "normalize_conversation_id (''conv_'' @ x) = x"
    by (simp add: normalize_conversation_id_def startswith_def)
  moreover have "to_llama_stack_conversation_id (''conv_'' @ x) = ''conv_'' @ x"
    by (simp add: to_llama_stack_conversation_id_def startswith_def)
  moreover have "\<not> startswith x ''conv_'' \<longrightarrow>
      normalize_conversation_id x = x \<and> to_llama_stack_conversation_id x = ''conv_'' @ x"
    by (simp add: normalize_conversation_id_def to_llama_stack_conversation_id_def)
  ultimately show ?thesis using check_suid_total [of v] by blast
qed

theorem identifier_operations_never_raise_witness:
  "check_suid (PyInt 7) = Inr False \<and>
   (\<exists>s. get_suid (replicate 16 (CHR 0x00)) = Inr s) \<and>
   normalize_conversation_id ''not an id'' = ''not an id'' \<and>
   to_llama_stack_conversation_id ''not an id'' = ''conv_not an id''"
proof -
  have a: "\<forall>s. PyInt 7 \<noteq> PyStr s" by simp
  have b: "length (replicate 16 (CHR 0x00)) = 16" by simp
  have c: "\<not> startswith ''not an id'' ''conv_''" by (simp add: startswith_def)
  from identifier_operations_never_raise [of "PyInt 7" "replicate 16 (CHR 0x00)" "''not an id''"]
    a b c show ?thesis by simp
qed

section \<open>Properties of the request models\<close>




text \<open>
  C2: \<open>get_input_source\<close> is the question, then the standard input, the contents of
  the attachment and the terminal output, each of the three present exactly when it
  is not empty and then preceded by two line feeds. The example of the
  specification and the empty context are the second and third statement.
\<close>

theorem get_input_source_combined:
  "get_input_source r =
     question r @
     (if stdin (request_context r) = [] then []
      else [CHR 0x0A, CHR 0x0A] @ stdin (request_context r)) @
     (if contents (attachments (request_context r)) = [] then []
      else [CHR 0x0A, CHR 0x0A] @ contents (attachments (request_context r))) @
     (if output' (terminal (request_context r)) = [] then []
      else [CHR 0x0A, CHR 0x0A] @ output' (terminal (request_context r))) \<and>
   get_input_source
     \<lparr>question = ''fix this'',
      request_context =
        \<lparr>stdin = ''error: x'', attachments = \<lparr>contents = [], mimetype = []\<rparr>,
         terminal = \<lparr>output' = ''bash: nf''\<rparr>, systeminfo = default_systeminfo,
         cla = default_cla\<rparr>,
      skip_rag = False\<rparr> =
     ''fix this'' @ [CHR 0x0A, CHR 0x0A] @ ''error: x'' @ [CHR 0x0A, CHR 0x0A] @ ''bash: nf'' \<and>
   get_input_source \<lparr>question = q, request_context = default_context, skip_rag = b\<rparr> = q"
  by (simp add: get_input_source_def Let_def default_context_def default_attachment_def
      default_terminal_def validate_attachment_def validate_terminal_def str_field_def)




end
